theory Spec2Isabelle
  imports Main "HOL-Library.Word"
begin

section \<open>Data model of the Roman numeral converter\<close>

text \<open>
  The program (\<^verbatim>\<open>main.go\<close>) converts between Arabic and Roman numerals. Go's
  \<^verbatim>\<open>uint16\<close> is \<open>16 word\<close>; Go's \<^verbatim>\<open>int64\<close> is \<open>int\<close>, and every theorem that
  depends on the width says in which interval it holds (the only narrowing the code
  performs, \<^verbatim>\<open>uint16(n)\<close>, is written out with \<open>word_of_int\<close>). A Go \<^verbatim>\<open>string\<close>
  is a sequence of bytes, here a \<open>string\<close> (a list of \<open>char\<close>).
\<close>

type_synonym u16 = "16 word"

text \<open>\<^verbatim>\<open>type NumType uint8\<close> with the constants \<^verbatim>\<open>Arabic\<close>, \<^verbatim>\<open>Roman\<close>, \<^verbatim>\<open>UnDef\<close>.\<close>

datatype NumType = Arabic | Roman | UnDef

text \<open>
  Every \<^verbatim>\<open>log.Fatalf\<close> of the program ends the process; each one is a value here.
  The argument is what the message prints.
\<close>

datatype error =
    NotAnInt string          \<comment> \<open>\<^verbatim>\<open>"%s cannot be converted to an int!"\<close>\<close>
  | GreaterThan4000 int      \<comment> \<open>\<^verbatim>\<open>"%d is greater than 4000"\<close>\<close>
  | LessThan1 int            \<comment> \<open>\<^verbatim>\<open>"%d is less than 1"\<close>\<close>
  | InvalidCharacter string  \<comment> \<open>\<^verbatim>\<open>"%s was not found in roman to arabic map"\<close>\<close>
  | NotDefined string        \<comment> \<open>\<^verbatim>\<open>"%s is not defined and is neither roman or arabic"\<close>\<close>

text \<open>
  The command line flags the conversion reads (\<^verbatim>\<open>-a\<close>, \<^verbatim>\<open>-sim\<close>, \<^verbatim>\<open>-s\<close>, \<^verbatim>\<open>-e\<close>).
  The program keeps them in global variables; here they are passed explicitly.
\<close>

record flags =
  addF :: bool
  simpleOutF :: bool
  startF :: int
  endF :: int

text \<open>
  \<^verbatim>\<open>aTorMap\<close> and \<^verbatim>\<open>rToaMap\<close>, in the order of the source text. A Go map has no
  order of iteration; \<open>findLargest_perm\<close> below shows that \<^verbatim>\<open>findLargest\<close> returns the
  same pair for every order of the same entries, so the order chosen here does not
  matter.
\<close>

definition aTorMap :: "(u16 \<times> string) list" where
  "aTorMap =
    [(1000, ''M''), (900, ''CM''), (500, ''D''), (400, ''CD''), (100, ''C''),
     (90, ''XC''), (50, ''L''), (40, ''XL''), (10, ''X''), (9, ''IX''),
     (5, ''V''), (4, ''IV''), (1, ''I'')]"

definition rToaMap :: "(string \<times> u16) list" where
  "rToaMap =
    [(''M'', 1000), (''CM'', 900), (''D'', 500), (''CD'', 400), (''C'', 100),
     (''XC'', 90), (''L'', 50), (''XL'', 40), (''X'', 10), (''IX'', 9),
     (''V'', 5), (''IV'', 4), (''I'', 1)]"

section \<open>Arabic to Roman\<close>

text \<open>
  \<^verbatim>\<open>findLargest\<close>: one pass over the map, keeping the largest key seen so far that
  is at most \<^verbatim>\<open>uint16(n)\<close>. The pair \<open>(lAr, lRm)\<close> starts as \<open>(0, "")\<close>.
\<close>

definition findLargest_step :: "int \<Rightarrow> u16 \<times> string \<Rightarrow> u16 \<times> string \<Rightarrow> u16 \<times> string" where
  "findLargest_step n kv best =
    (case kv of (k, v) \<Rightarrow>
      (case best of (lAr, lRm) \<Rightarrow>
        if (word_of_int n :: u16) \<ge> k \<and> k > lAr then (k, v) else (lAr, lRm)))"

definition findLargest :: "int \<Rightarrow> (u16 \<times> string) list \<Rightarrow> u16 \<times> string" where
  "findLargest n m = fold (findLargest_step n) m (0, [])"

text \<open>\<^verbatim>\<open>makeAddMap\<close>: the entries whose symbol is one byte long.\<close>

definition makeAddMap :: "(u16 \<times> string) list \<Rightarrow> (u16 \<times> string) list" where
  "makeAddMap inmap = filter (\<lambda>(k, v). length v = 1) inmap"

text \<open>
  The loop \<^verbatim>\<open>for current > 0\<close> of \<^verbatim>\<open>arabicToRoman\<close>. Nothing in the code bounds
  the number of iterations (when \<^verbatim>\<open>findLargest\<close> returns the key 0 the accumulator
  does not change), so the loop is a partial function: \<open>None\<close> means that it does
  not return, as on 65536 (\<open>arabicToRoman_65536\<close> below).
\<close>

partial_function (option) arabicToRoman_loop ::
  "(u16 \<times> string) list \<Rightarrow> string \<Rightarrow> int \<Rightarrow> string option" where
  "arabicToRoman_loop useMap outStr current =
    (if current > 0 then
       (case findLargest current useMap of
          (a, r) \<Rightarrow> arabicToRoman_loop useMap (outStr @ r) (current - uint a))
     else Some outStr)"

declare arabicToRoman_loop.simps [code]

definition useMap_of :: "bool \<Rightarrow> (u16 \<times> string) list" where
  "useMap_of add = (if add then makeAddMap aTorMap else aTorMap)"

definition arabicToRoman :: "bool \<Rightarrow> int \<Rightarrow> string option" where
  "arabicToRoman add val = arabicToRoman_loop (useMap_of add) [] val"

section \<open>Roman to Arabic\<close>

text \<open>
  \<^verbatim>\<open>romanToArabic\<close>: the index \<open>i\<close> runs over the bytes of \<open>str\<close>. \<open>xc\<close> is the
  two bytes at \<open>i\<close> when there are two, and stays empty otherwise; the empty string
  is no key of \<^verbatim>\<open>rToaMap\<close>. \<^verbatim>\<open>string(c)\<close> of a byte below 128 is that byte; of a byte
  from 128 on it is a two-byte UTF-8 sequence, which is no key of the map either, as
  \<open>[c]\<close> is none.
\<close>

function romanToArabic_loop :: "string \<Rightarrow> nat \<Rightarrow> int \<Rightarrow> error + int" where
  "romanToArabic_loop str i val =
    (if i < length str then
       (let c = str ! i;
            xc = (if i + 1 < length str then [c, str ! (i + 1)] else [])
        in case map_of rToaMap xc of
             Some v \<Rightarrow> romanToArabic_loop str (i + 2) (val + uint v)
           | None \<Rightarrow>
               (case map_of rToaMap [c] of
                  Some v \<Rightarrow> romanToArabic_loop str (i + 1) (val + uint v)
                | None \<Rightarrow> Inl (InvalidCharacter str)))
     else Inr val)"
  by pat_completeness auto
termination
  by (relation "measure (\<lambda>(str, i, val). length str - i)") auto

declare romanToArabic_loop.simps [simp del]

definition romanToArabic :: "string \<Rightarrow> error + int" where
  "romanToArabic str = romanToArabic_loop str 0 0"

section \<open>Classification of the argument\<close>

text \<open>
  \<^verbatim>\<open>whichNumeralType\<close> matches its argument against two regular expressions,
  \<^verbatim>\<open>^[1-9]\d*$\<close> and \<^verbatim>\<open>^[IVXLCDM]+$\<close>. Both are anchored at both ends (Go's \<^verbatim>\<open>$\<close>
  without the multi-line flag is the end of the text), so \<^verbatim>\<open>MatchString\<close> asks
  whether the whole string is in the language. Both are a sequence of character
  classes, each with a repetition; that fragment is all that is modelled. Every
  character of the classes is ASCII, so matching byte by byte agrees with Go's matching
  rune by rune: a byte from 128 on belongs to no class, as the rune it is part of.
\<close>

datatype charclass = Range char char | OneOf string

datatype repetition = Once | ZeroOrMore | OneOrMore

type_synonym pattern = "(charclass \<times> repetition) list"

fun in_class :: "charclass \<Rightarrow> char \<Rightarrow> bool" where
  "in_class (Range lo hi) c = ((of_char lo :: nat) \<le> of_char c \<and> (of_char c :: nat) \<le> of_char hi)"
| "in_class (OneOf cs) c = (c \<in> set cs)"

fun MatchString :: "pattern \<Rightarrow> string \<Rightarrow> bool" where
  "MatchString [] s = (s = [])"
| "MatchString ((cl, Once) # p) s =
    (case s of [] \<Rightarrow> False | c # cs \<Rightarrow> in_class cl c \<and> MatchString p cs)"
| "MatchString ((cl, ZeroOrMore) # p) s =
    (MatchString p s \<or>
     (case s of [] \<Rightarrow> False | c # cs \<Rightarrow> in_class cl c \<and> MatchString ((cl, ZeroOrMore) # p) cs))"
| "MatchString ((cl, OneOrMore) # p) s =
    (case s of [] \<Rightarrow> False | c # cs \<Rightarrow> in_class cl c \<and> MatchString ((cl, ZeroOrMore) # p) cs)"

definition arabicPattern :: pattern where
  "arabicPattern = [(Range (CHR ''1'') (CHR ''9''), Once), (Range (CHR ''0'') (CHR ''9''), ZeroOrMore)]"

definition romanPattern :: pattern where
  "romanPattern = [(OneOf ''IVXLCDM'', OneOrMore)]"

definition whichNumeralType :: "string \<Rightarrow> NumType" where
  "whichNumeralType str =
    (if MatchString arabicPattern str then Arabic
     else if MatchString romanPattern str then Roman
     else UnDef)"

section \<open>Validation of Arabic numbers\<close>

text \<open>\<^verbatim>\<open>isValArabic\<close> returns a Go \<^verbatim>\<open>error\<close>: \<open>None\<close> is \<^verbatim>\<open>nil\<close>.\<close>

definition isValArabic :: "int \<Rightarrow> error option" where
  "isValArabic num =
    (if num > 4000 then Some (GreaterThan4000 num)
     else if num < 1 then Some (LessThan1 num)
     else None)"

text \<open>
  \<^verbatim>\<open>strconv.ParseInt(str, 10, 64)\<close> of Go's library: an optional sign, then at least
  one decimal digit and nothing else, and a value that fits 64 bits; \<open>None\<close> is any
  error it returns.
\<close>

fun parse_digits :: "string \<Rightarrow> int \<Rightarrow> int option" where
  "parse_digits [] acc = Some acc"
| "parse_digits (c # cs) acc =
    (if in_class (Range (CHR ''0'') (CHR ''9'')) c
     then parse_digits cs (10 * acc + (of_char c - 48))
     else None)"

definition ParseInt :: "string \<Rightarrow> int option" where
  "ParseInt s =
    (case s of
       [] \<Rightarrow> None
     | c # cs \<Rightarrow>
        (let neg = (c = CHR ''-'');
             body = (if c = CHR ''+'' \<or> c = CHR ''-'' then cs else s)
         in if body = [] then None
            else (case parse_digits body 0 of
                    None \<Rightarrow> None
                  | Some un \<Rightarrow>
                      if \<not> neg \<and> un \<ge> 2 ^ 63 then None
                      else if neg \<and> un > 2 ^ 63 then None
                      else Some (if neg then - un else un))))"

definition makeInt64 :: "string \<Rightarrow> error + int" where
  "makeInt64 str =
    (case ParseInt str of
       None \<Rightarrow> Inl (NotAnInt str)
     | Some convVal \<Rightarrow>
        (case isValArabic convVal of
           Some err \<Rightarrow> Inl err
         | None \<Rightarrow> Inr convVal))"

section \<open>Formatting and ranges\<close>

text \<open>The verb \<^verbatim>\<open>%d\<close> of \<^verbatim>\<open>fmt.Sprintf\<close>: decimal digits, a minus sign when negative.\<close>

fun fmt_nat :: "nat \<Rightarrow> string" where
  "fmt_nat n = (if n < 10 then [char_of (48 + n)] else fmt_nat (n div 10) @ [char_of (48 + n mod 10)])"

declare fmt_nat.simps [simp del]

definition fmt_d :: "int \<Rightarrow> string" where
  "fmt_d i = (if i < 0 then CHR ''-'' # fmt_nat (nat (- i)) else fmt_nat (nat i))"

text \<open>\<^verbatim>\<open>formatValue\<close>; the suffix of the additive mode is \<^verbatim>\<open>"\t (add)"\<close>, a tab first.\<close>

definition formatValue :: "flags \<Rightarrow> int \<Rightarrow> string \<Rightarrow> NumType \<Rightarrow> string" where
  "formatValue fl arVal romVal outType =
    (case outType of
       Roman \<Rightarrow>
         (if simpleOutF fl then romVal
          else (let outStr = fmt_d arVal @ '' = '' @ romVal
                in if addF fl then outStr @ CHR 0x09 # '' (add)'' else outStr))
     | Arabic \<Rightarrow>
         (if simpleOutF fl then fmt_d arVal
          else romVal @ '' = '' @ fmt_d arVal)
     | UnDef \<Rightarrow> ''NA'')"

text \<open>
  \<^verbatim>\<open>genRange\<close>: \<^verbatim>\<open>for i := *startF; i <= *endF; i++\<close>. The counter is a Go \<^verbatim>\<open>int\<close>
  (64 bits wide), whose increment wraps around. The loop calls \<^verbatim>\<open>arabicToRoman\<close>
  on \<open>i\<close> as it is: no call of \<^verbatim>\<open>isValArabic\<close> stands on this path.
\<close>

definition incr :: "int \<Rightarrow> int" where
  "incr i = (if i = 2 ^ 63 - 1 then - (2 ^ 63) else i + 1)"

partial_function (option) genRange_loop :: "flags \<Rightarrow> int \<Rightarrow> string list \<Rightarrow> string list option" where
  "genRange_loop fl i outVals =
    (if i \<le> endF fl then
       Option.bind (arabicToRoman (addF fl) i)
         (\<lambda>r. genRange_loop fl (incr i) (outVals @ [formatValue fl i r Roman]))
     else Some outVals)"

declare genRange_loop.simps [code]

definition genRange :: "flags \<Rightarrow> string list option" where
  "genRange fl = genRange_loop fl (startF fl) []"

text \<open>
  \<^verbatim>\<open>main\<close> with the flag \<^verbatim>\<open>-r\<close> off, from the upper-cased argument \<open>val\<close> to what is
  printed or written. With \<^verbatim>\<open>-r\<close> off the guard \<^verbatim>\<open>val == "" && !*rangeF\<close> is
  \<^verbatim>\<open>val == ""\<close>: the program prints the usage text and returns. Otherwise it is the
  single value case, which puts out one line. \<open>None\<close>: the conversion does not
  return.
\<close>

datatype printed = Usage | Line string

definition main_single :: "flags \<Rightarrow> string \<Rightarrow> (error + printed) option" where
  "main_single fl val =
    (if val = [] then Some (Inr Usage)
     else
      (case whichNumeralType val of
         Arabic \<Rightarrow>
           (case makeInt64 val of
              Inl err \<Rightarrow> Some (Inl err)
            | Inr convVal \<Rightarrow>
                map_option (\<lambda>r. Inr (Line (formatValue fl convVal r Roman)))
                  (arabicToRoman (addF fl) convVal))
       | Roman \<Rightarrow>
           (case romanToArabic val of
              Inl err \<Rightarrow> Some (Inl err)
            | Inr v \<Rightarrow> Some (Inr (Line (formatValue fl v val Arabic))))
       | UnDef \<Rightarrow> Some (Inl (NotDefined val))))"

section \<open>The specification's algorithms\<close>

text \<open>
  The definitions of this section follow the words of the specification, not the
  code; the theorems below compare the code with them.

  \<open>spec_greedy tbl n out\<close>: the greedy conversion of section 4.4 run on the table
  \<open>tbl\<close> from the accumulator \<open>n\<close> produces \<open>out\<close>. A step finds the largest entry
  whose value is at most the accumulator, appends its symbol and subtracts its value;
  the run ends when the accumulator is zero.
\<close>

inductive spec_greedy :: "(u16 \<times> string) list \<Rightarrow> int \<Rightarrow> string \<Rightarrow> bool"
  for tbl :: "(u16 \<times> string) list" where
    greedy_done: "spec_greedy tbl 0 []"
  | greedy_step:
      "0 < acc \<Longrightarrow> (k, s) \<in> set tbl \<Longrightarrow> uint k \<le> acc \<Longrightarrow>
       (\<forall>(k', s') \<in> set tbl. uint k' \<le> acc \<longrightarrow> uint k' \<le> uint k) \<Longrightarrow>
       spec_greedy tbl (acc - uint k) out \<Longrightarrow>
       spec_greedy tbl acc (s @ out)"

text \<open>
  \<open>spec_scan\<close>: the scan of section 4.3. At each position the two-character
  substring is matched against the subtractive pairs first (add its value, advance by
  two), then the single character against the single symbols (add its value, advance
  by one); \<open>None\<close> when neither matches.
\<close>

definition spec_pairs :: "(string \<times> int) list" where
  "spec_pairs = [(''CM'', 900), (''CD'', 400), (''XC'', 90), (''XL'', 40), (''IX'', 9), (''IV'', 4)]"

definition spec_singles :: "(char \<times> int) list" where
  "spec_singles =
    [(CHR ''M'', 1000), (CHR ''D'', 500), (CHR ''C'', 100), (CHR ''L'', 50),
     (CHR ''X'', 10), (CHR ''V'', 5), (CHR ''I'', 1)]"

fun spec_scan :: "string \<Rightarrow> int option" where
  "spec_scan [] = Some 0"
| "spec_scan [c] = map_of spec_singles c"
| "spec_scan (c # d # rest) =
    (case map_of spec_pairs [c, d] of
       Some v \<Rightarrow> map_option ((+) v) (spec_scan rest)
     | None \<Rightarrow>
        (case map_of spec_singles c of
           Some v \<Rightarrow> map_option ((+) v) (spec_scan (d # rest))
         | None \<Rightarrow> None))"

section \<open>Auxiliary notions of the proofs\<close>

text \<open>A table as a Go map literal gives it: no key twice, and here no key 0.\<close>

definition table_ok :: "(u16 \<times> string) list \<Rightarrow> bool" where
  "table_ok tbl = (distinct (map fst tbl) \<and> (\<forall>(k, s) \<in> set tbl. 0 < k))"

text \<open>
  The invariant of the round trip: the numeral produced for a value below 400 does not
  start with \<open>M\<close> or \<open>D\<close>, and so on, so that the symbol put in front of it never
  forms a subtractive pair with its first character.
\<close>

definition lead_ok :: "int \<Rightarrow> string \<Rightarrow> bool" where
  "lead_ok n r =
    (case r of [] \<Rightarrow> True
     | c # _ \<Rightarrow>
        (n < 400 \<longrightarrow> c \<noteq> CHR ''M'' \<and> c \<noteq> CHR ''D'') \<and>
        (n < 40 \<longrightarrow> c \<noteq> CHR ''C'' \<and> c \<noteq> CHR ''L'') \<and>
        (n < 4 \<longrightarrow> c \<noteq> CHR ''X'' \<and> c \<noteq> CHR ''V''))"

section \<open>Lemmas\<close>

subsection \<open>What findLargest returns\<close>

text \<open>
  The pass over the table returns the start pair \<open>(0, "")\<close> or an entry of the
  table whose key is at most \<^verbatim>\<open>uint16(n)\<close>, and no key of the table that is at most
  \<^verbatim>\<open>uint16(n)\<close> is larger than the key returned. With distinct keys this fixes the
  result, whatever the order of the entries.
\<close>

lemma findLargest_step_pair:
  "findLargest_step n (k, v) (a, r) = (if k \<le> word_of_int n \<and> a < k then (k, v) else (a, r))"
  by (simp add: findLargest_step_def)

lemma fold_findLargest_step:
  "fold (findLargest_step n) m (a, r) = res \<Longrightarrow>
     (res = (a, r) \<or> (res \<in> set m \<and> fst res \<le> word_of_int n \<and> a < fst res))
     \<and> (\<forall>(k, v) \<in> set m. k \<le> word_of_int n \<longrightarrow> k \<le> fst res)
     \<and> a \<le> fst res"
proof (induction m arbitrary: a r)
  case Nil
  then show ?case by auto
next
  case (Cons kv m)
  obtain k v where kv: "kv = (k, v)" by (cases kv)
  show ?case
  proof (cases "k \<le> word_of_int n \<and> a < k")
    case True
    with Cons.prems kv have "fold (findLargest_step n) m (k, v) = res"
      by (simp add: findLargest_step_pair)
    from Cons.IH [OF this] True kv show ?thesis by auto
  next
    case False
    with Cons.prems kv have "fold (findLargest_step n) m (a, r) = res"
      by (simp add: findLargest_step_pair)
    from Cons.IH [OF this] False kv show ?thesis by auto
  qed
qed

lemma findLargest_cases:
  "findLargest n m = (0, []) \<or>
     (findLargest n m \<in> set m \<and> fst (findLargest n m) \<le> word_of_int n \<and> 0 < fst (findLargest n m))"
  using fold_findLargest_step [of n m 0 "[]" "findLargest n m"]
  by (simp add: findLargest_def)

lemma findLargest_upper:
  "(k, v) \<in> set m \<Longrightarrow> k \<le> word_of_int n \<Longrightarrow> k \<le> fst (findLargest n m)"
  using fold_findLargest_step [of n m 0 "[]" "findLargest n m"]
  by (auto simp add: findLargest_def)

lemma findLargest_max:
  assumes d: "distinct (map fst m)"
    and mem: "(k, v) \<in> set m" and pos: "0 < k" and le: "k \<le> word_of_int n"
    and mx: "\<forall>(k', v') \<in> set m. k' \<le> word_of_int n \<longrightarrow> k' \<le> k"
  shows "findLargest n m = (k, v)"
proof -
  obtain a r where res: "findLargest n m = (a, r)" by (cases "findLargest n m")
  from findLargest_upper [OF mem le] res have ka: "k \<le> a" by simp
  with pos have "0 < a" by simp
  with findLargest_cases [of n m] res have in_m: "(a, r) \<in> set m" and "a \<le> word_of_int n"
    by auto
  with mx have "a \<le> k" by auto
  with ka have "a = k" by simp
  with d mem in_m have "r = v" by (auto dest: eq_key_imp_eq_value)
  with \<open>a = k\<close> res show ?thesis by simp
qed

lemma findLargest_perm:
  assumes d: "distinct (map fst m)" and d': "distinct (map fst m')" and s: "set m' = set m"
  shows "findLargest n m' = findLargest n m"
proof -
  have one: "findLargest n m1 = findLargest n m2"
    if d1: "distinct (map fst m1)" and eq: "set m1 = set m2" and hit: "findLargest n m2 \<noteq> (0, [])"
    for m1 m2
  proof -
    obtain a r where res: "findLargest n m2 = (a, r)" by (cases "findLargest n m2")
    with hit findLargest_cases [of n m2]
    have mem: "(a, r) \<in> set m2" and le: "a \<le> word_of_int n" and pos: "0 < a" by auto
    have "\<forall>(k', v') \<in> set m1. k' \<le> word_of_int n \<longrightarrow> k' \<le> a"
      using findLargest_upper [of _ _ m2 n] res eq by fastforce
    with findLargest_max [OF d1 _ pos le] mem eq res show ?thesis by simp
  qed
  show ?thesis
  proof (cases "findLargest n m = (0, [])")
    case False
    from one [OF d' s False] show ?thesis .
  next
    case True
    show ?thesis
    proof (cases "findLargest n m' = (0, [])")
      case True
      with \<open>findLargest n m = (0, [])\<close> show ?thesis by simp
    next
      case False
      from one [OF d s [symmetric] False] show ?thesis by simp
    qed
  qed
qed

lemma makeAddMap_set: "set (makeAddMap m) = {(k, v) \<in> set m. length v = 1}"
  by (auto simp add: makeAddMap_def)

subsection \<open>The loop of arabicToRoman and the greedy run\<close>

text \<open>
  Below 65536 the narrowing \<^verbatim>\<open>uint16(n)\<close> loses nothing, and the loop follows the
  greedy run step by step. From 65536 on it need not return: at 65536 the narrowed
  value is 0, no key is found and the accumulator stays as it is.
\<close>

lemma word_le_of_int: "0 \<le> n \<Longrightarrow> n < 65536 \<Longrightarrow> (k \<le> (word_of_int n :: u16)) = (uint k \<le> n)"
  by (simp add: word_le_def uint_word_of_int)

lemma findLargest_greedy:
  assumes ok: "table_ok tbl" and n: "0 < n" "n < 65536"
    and mem: "(k, s) \<in> set tbl" and le: "uint k \<le> n"
    and mx: "\<forall>(k', s') \<in> set tbl. uint k' \<le> n \<longrightarrow> uint k' \<le> uint k"
  shows "findLargest n tbl = (k, s)"
proof (rule findLargest_max)
  from ok show "distinct (map fst tbl)" by (simp add: table_ok_def)
  from mem show "(k, s) \<in> set tbl" .
  from ok mem show "0 < k" by (auto simp add: table_ok_def)
  from n le show "k \<le> word_of_int n" by (simp add: word_le_of_int)
  show "\<forall>(k', v') \<in> set tbl. k' \<le> word_of_int n \<longrightarrow> k' \<le> k"
  proof clarify
    fix k' v' assume "(k', v') \<in> set tbl" and "k' \<le> word_of_int n"
    with n have "(k', v') \<in> set tbl" and "uint k' \<le> n" by (simp_all add: word_le_of_int)
    with mx have "uint k' \<le> uint k" by auto
    then show "k' \<le> k" by (simp add: word_le_def)
  qed
qed

lemma loop_greedy:
  "spec_greedy tbl n r \<Longrightarrow> table_ok tbl \<Longrightarrow> n < 65536 \<Longrightarrow>
     arabicToRoman_loop tbl out n = Some (out @ r)"
proof (induction arbitrary: out rule: spec_greedy.induct)
  case greedy_done
  show ?case by (simp add: arabicToRoman_loop.simps)
next
  case (greedy_step acc k s r)
  from greedy_step.prems greedy_step.hyps
  have fl: "findLargest acc tbl = (k, s)" by (intro findLargest_greedy) auto
  have "0 \<le> uint k" by simp
  with greedy_step.prems have "acc - uint k < 65536" by linarith
  with greedy_step.IH [of "out @ s"] greedy_step.prems
  have "arabicToRoman_loop tbl (out @ s) (acc - uint k) = Some (out @ s @ r)" by simp
  with fl greedy_step.hyps(1) show ?case
    by (subst arabicToRoman_loop.simps) simp
qed

lemma spec_greedy_nonneg: "spec_greedy tbl n r \<Longrightarrow> 0 \<le> n"
  by (induction rule: spec_greedy.induct) auto

lemma spec_greedy_exists:
  assumes ok: "table_ok tbl" and one: "(1, s1) \<in> set tbl"
  shows "0 \<le> n \<Longrightarrow> \<exists>r. spec_greedy tbl n r"
proof (induction "nat n" arbitrary: n rule: less_induct)
  case less
  show ?case
  proof (cases "n = 0")
    case True
    then show ?thesis by (auto intro: greedy_done)
  next
    case False
    with less.prems have pos: "0 < n" by simp
    define K where "K = {k \<in> fst ` set tbl. uint k \<le> n}"
    have fin: "finite K" by (simp add: K_def)
    from one pos have "1 \<in> K" by (force simp add: K_def)
    then have ne: "K \<noteq> {}" by auto
    define k where "k = Max K"
    from fin ne have kK: "k \<in> K" unfolding k_def by (rule Max_in)
    then obtain s where mem: "(k, s) \<in> set tbl" and le: "uint k \<le> n"
      by (auto simp add: K_def)
    have mx: "\<forall>(k', s') \<in> set tbl. uint k' \<le> n \<longrightarrow> uint k' \<le> uint k"
    proof (clarify)
      fix k' s' assume "(k', s') \<in> set tbl" "uint k' \<le> n"
      then have "k' \<in> K" by (force simp add: K_def)
      with fin have "k' \<le> k" unfolding k_def by (rule Max_ge)
      then show "uint k' \<le> uint k" by (simp add: word_le_def)
    qed
    from ok mem have "0 < k" by (auto simp add: table_ok_def)
    then have kpos: "0 < uint k" by (simp add: word_less_def)
    with le pos have "nat (n - uint k) < nat n" "0 \<le> n - uint k" by linarith+
    from less.hyps [OF this] obtain r where "spec_greedy tbl (n - uint k) r" ..
    from greedy_step [OF pos mem le mx this] show ?thesis ..
  qed
qed

lemma findLargest_zero:
  assumes "(word_of_int n :: u16) = 0"
  shows "findLargest n m = (0, [])"
proof -
  have "fold (findLargest_step n) m (0, []) = (0, [])"
  proof (induction m)
    case Nil
    show ?case by simp
  next
    case (Cons kv m)
    obtain k v where "kv = (k, v)" by (cases kv)
    with Cons assms show ?case by (auto simp add: findLargest_step_pair)
  qed
  then show ?thesis by (simp add: findLargest_def)
qed

lemma loop_stuck:
  assumes ret: "arabicToRoman_loop m out n = Some y"
  shows "\<not> (0 < n \<and> (word_of_int n :: u16) = 0)"
proof (rule arabicToRoman_loop.raw_induct
    [where P = "\<lambda>m out n y. \<not> (0 < n \<and> (word_of_int n :: u16) = 0)", OF _ ret])
  fix f :: "(u16 \<times> string) list \<Rightarrow> string \<Rightarrow> int \<Rightarrow> string option"
  fix m' out' n' y'
  assume IH: "\<And>m out n y. f m out n = Some y \<Longrightarrow> \<not> (0 < n \<and> (word_of_int n :: u16) = 0)"
    and eq: "(if 0 < n' then case findLargest n' m' of (a, r) \<Rightarrow> f m' (out' @ r) (n' - uint a)
              else Some out') = Some y'"
  show "\<not> (0 < n' \<and> (word_of_int n' :: u16) = 0)"
  proof
    assume a: "0 < n' \<and> (word_of_int n' :: u16) = 0"
    with findLargest_zero [of n' m'] have "findLargest n' m' = (0, [])" by simp
    with a eq have "f m' out' n' = Some y'" by simp
    from IH [OF this] a show False by simp
  qed
qed

lemma arabicToRoman_65536: "arabicToRoman add 65536 = None"
proof (cases "arabicToRoman add 65536")
  case None
  then show ?thesis .
next
  case (Some y)
  then have "arabicToRoman_loop (useMap_of add) [] 65536 = Some y"
    by (simp add: arabicToRoman_def)
  from loop_stuck [OF this] show ?thesis by simp
qed

lemma table_ok_aTorMap: "table_ok aTorMap"
  by (simp add: table_ok_def aTorMap_def)

lemma makeAddMap_aTorMap:
  "makeAddMap aTorMap =
     [(1000, ''M''), (500, ''D''), (100, ''C''), (50, ''L''), (10, ''X''), (5, ''V''), (1, ''I'')]"
  by (simp add: makeAddMap_def aTorMap_def)

lemma table_ok_addMap: "table_ok (makeAddMap aTorMap)"
  by (simp add: table_ok_def makeAddMap_aTorMap)

lemma table_ok_useMap: "table_ok (useMap_of add)"
  by (simp add: useMap_of_def table_ok_aTorMap table_ok_addMap)

lemma one_in_useMap: "(1, ''I'') \<in> set (useMap_of add)"
  by (simp add: useMap_of_def makeAddMap_aTorMap) (simp add: aTorMap_def)

subsection \<open>The loop of romanToArabic and the scan\<close>

text \<open>
  The index loop computes what the scan computes on the rest of the string from the
  index on. \<open>spec_scan_bound\<close>: the sum is at most 1000 times the length, so the
  \<^verbatim>\<open>int64\<close> of the code cannot overflow on a string shorter than \<open>2^63 / 1000\<close> bytes.
\<close>

lemma rToaMap_empty: "map_of rToaMap [] = None"
  by (simp add: rToaMap_def)

lemma rToaMap_single: "map_of spec_singles c = map_option uint (map_of rToaMap [c])"
  by (simp add: rToaMap_def spec_singles_def)

lemma rToaMap_pair: "map_of spec_pairs [c, d] = map_option uint (map_of rToaMap [c, d])"
  by (simp add: rToaMap_def spec_pairs_def)

lemma romanToArabic_loop_scan:
  "romanToArabic_loop str i val =
     (case spec_scan (drop i str) of
        Some v \<Rightarrow> Inr (val + v)
      | None \<Rightarrow> Inl (InvalidCharacter str))"
proof (induction str i val rule: romanToArabic_loop.induct)
  case (1 str i val)
  show ?case
  proof (cases "i < length str")
    case False
    then show ?thesis by (simp add: romanToArabic_loop.simps)
  next
    case True
    note i = this
    show ?thesis
    proof (cases "i + 1 < length str")
      case False
      with i have d: "drop i str = [str ! i]"
        by (metis Cons_nth_drop_Suc Suc_eq_plus1 drop_all not_le_imp_less)
      have "romanToArabic_loop str (i + 1) w = Inr w" for w
        using False by (subst romanToArabic_loop.simps) simp
      with i False d show ?thesis
        by (subst romanToArabic_loop.simps)
          (simp add: rToaMap_empty rToaMap_single split: option.splits)
    next
      case True
      with i have d: "drop i str = str ! i # str ! (i + 1) # drop (i + 2) str"
        by (metis Cons_nth_drop_Suc Suc_eq_plus1 add_2_eq_Suc')
      then have d1: "drop (i + 1) str = str ! (i + 1) # drop (i + 2) str"
        by (metis Cons_nth_drop_Suc Suc_eq_plus1 True add_2_eq_Suc')
      show ?thesis
      proof (cases "map_of rToaMap [str ! i, str ! (i + 1)]")
        case (Some v)
        have "romanToArabic_loop str (i + 2) (val + uint v) =
          (case spec_scan (drop (i + 2) str) of
             Some w \<Rightarrow> Inr (val + uint v + w) | None \<Rightarrow> Inl (InvalidCharacter str))"
          using "1.IH"(2) [OF i refl refl, of v] True Some by simp
        with Some i True d show ?thesis
          by (subst romanToArabic_loop.simps)
            (simp add: rToaMap_pair split: option.splits)
      next
        case None
        note np = this
        show ?thesis
        proof (cases "map_of rToaMap [str ! i]")
          case None
          with i True d np show ?thesis
            by (subst romanToArabic_loop.simps)
              (simp add: rToaMap_pair rToaMap_single)
        next
          case (Some v)
          have "romanToArabic_loop str (i + 1) (val + uint v) =
            (case spec_scan (drop (i + 1) str) of
               Some w \<Rightarrow> Inr (val + uint v + w) | None \<Rightarrow> Inl (InvalidCharacter str))"
            using "1.IH"(1) [OF i refl refl, of v] True np Some by simp
          with Some i True d d1 np show ?thesis
            by (subst romanToArabic_loop.simps)
              (simp add: rToaMap_pair rToaMap_single split: option.splits)
        qed
      qed
    qed
  qed
qed

lemma romanToArabic_scan:
  "romanToArabic str =
     (case spec_scan str of Some v \<Rightarrow> Inr v | None \<Rightarrow> Inl (InvalidCharacter str))"
  by (simp add: romanToArabic_def romanToArabic_loop_scan split: option.splits)

lemma spec_scan_bound: "spec_scan s = Some v \<Longrightarrow> 0 \<le> v \<and> v \<le> 1000 * int (length s)"
proof (induction s arbitrary: v rule: spec_scan.induct)
  case 1
  then show ?case by simp
next
  case (2 c)
  then show ?case by (auto simp add: spec_singles_def split: if_splits)
next
  case (3 c d rest)
  show ?case
  proof (cases "map_of spec_pairs [c, d]")
    case (Some p)
    with "3.prems" obtain w where w: "spec_scan rest = Some w" and v: "v = p + w" by auto
    from Some have "0 \<le> p \<and> p \<le> 1000" by (auto simp add: spec_pairs_def split: if_splits)
    with "3.IH"(2) [OF Some w] v show ?thesis by simp
  next
    case None
    with "3.prems" obtain q w where q: "map_of spec_singles c = Some q"
      and w: "spec_scan (d # rest) = Some w" and v: "v = q + w"
      by (auto split: option.splits)
    from q have "0 \<le> q \<and> q \<le> 1000" by (auto simp add: spec_singles_def split: if_splits)
    with "3.IH"(1) [OF None q w] v show ?thesis by simp
  qed
qed

lemma spec_singles_alphabet:
  "c \<in> set ''IVXLCDM'' \<Longrightarrow> \<exists>v. map_of spec_singles c = Some v \<and> 1 \<le> v"
  by (auto simp add: spec_singles_def)

lemma spec_pairs_pos: "map_of spec_pairs x = Some v \<Longrightarrow> 1 \<le> v"
  by (auto simp add: spec_pairs_def split: if_splits)

lemma spec_scan_alphabet:
  "set s \<subseteq> set ''IVXLCDM'' \<Longrightarrow> \<exists>v. spec_scan s = Some v \<and> 0 \<le> v \<and> (s \<noteq> [] \<longrightarrow> 1 \<le> v)"
proof (induction s rule: spec_scan.induct)
  case 1
  show ?case by simp
next
  case (2 c)
  then have "c \<in> set ''IVXLCDM''" by simp
  from spec_singles_alphabet [OF this] show ?case by auto
next
  case (3 c d rest)
  from "3.prems" have c: "c \<in> set ''IVXLCDM''" and r1: "set (d # rest) \<subseteq> set ''IVXLCDM''"
    and r2: "set rest \<subseteq> set ''IVXLCDM''" by simp_all
  show ?case
  proof (cases "map_of spec_pairs [c, d]")
    case (Some v)
    from "3.IH"(2) [OF Some r2] obtain w where "spec_scan rest = Some w" "0 \<le> w" by blast
    with Some spec_pairs_pos [OF Some] show ?thesis by simp
  next
    case None
    from spec_singles_alphabet [OF c] obtain v where v: "map_of spec_singles c = Some v" "1 \<le> v"
      by blast
    from "3.IH"(1) [OF None v(1) r1] obtain w where "spec_scan (d # rest) = Some w" "0 \<le> w"
      by blast
    with None v show ?thesis by simp
  qed
qed

subsection \<open>The round trip\<close>

lemma aTorMap_choice:
  assumes mem: "(k, s) \<in> set aTorMap" and le: "uint k \<le> acc"
    and mx: "\<forall>(k', s') \<in> set aTorMap. uint k' \<le> acc \<longrightarrow> uint k' \<le> uint k"
  shows "(1000 \<le> acc \<and> uint k = 1000 \<and> s = ''M'') \<or>
         (900 \<le> acc \<and> acc < 1000 \<and> uint k = 900 \<and> s = ''CM'') \<or>
         (500 \<le> acc \<and> acc < 900 \<and> uint k = 500 \<and> s = ''D'') \<or>
         (400 \<le> acc \<and> acc < 500 \<and> uint k = 400 \<and> s = ''CD'') \<or>
         (100 \<le> acc \<and> acc < 400 \<and> uint k = 100 \<and> s = ''C'') \<or>
         (90 \<le> acc \<and> acc < 100 \<and> uint k = 90 \<and> s = ''XC'') \<or>
         (50 \<le> acc \<and> acc < 90 \<and> uint k = 50 \<and> s = ''L'') \<or>
         (40 \<le> acc \<and> acc < 50 \<and> uint k = 40 \<and> s = ''XL'') \<or>
         (10 \<le> acc \<and> acc < 40 \<and> uint k = 10 \<and> s = ''X'') \<or>
         (9 \<le> acc \<and> acc < 10 \<and> uint k = 9 \<and> s = ''IX'') \<or>
         (5 \<le> acc \<and> acc < 9 \<and> uint k = 5 \<and> s = ''V'') \<or>
         (4 \<le> acc \<and> acc < 5 \<and> uint k = 4 \<and> s = ''IV'') \<or>
         (1 \<le> acc \<and> acc < 4 \<and> uint k = 1 \<and> s = ''I'')"
proof -
  from mx have b:
    "1000 \<le> acc \<longrightarrow> 1000 \<le> uint k" "900 \<le> acc \<longrightarrow> 900 \<le> uint k"
    "500 \<le> acc \<longrightarrow> 500 \<le> uint k" "400 \<le> acc \<longrightarrow> 400 \<le> uint k"
    "100 \<le> acc \<longrightarrow> 100 \<le> uint k" "90 \<le> acc \<longrightarrow> 90 \<le> uint k"
    "50 \<le> acc \<longrightarrow> 50 \<le> uint k" "40 \<le> acc \<longrightarrow> 40 \<le> uint k"
    "10 \<le> acc \<longrightarrow> 10 \<le> uint k" "9 \<le> acc \<longrightarrow> 9 \<le> uint k"
    "5 \<le> acc \<longrightarrow> 5 \<le> uint k" "4 \<le> acc \<longrightarrow> 4 \<le> uint k"
    by (simp_all add: aTorMap_def)
  from mem have
    "k = 1000 \<and> s = ''M'' \<or> k = 900 \<and> s = ''CM'' \<or> k = 500 \<and> s = ''D'' \<or>
     k = 400 \<and> s = ''CD'' \<or> k = 100 \<and> s = ''C'' \<or> k = 90 \<and> s = ''XC'' \<or>
     k = 50 \<and> s = ''L'' \<or> k = 40 \<and> s = ''XL'' \<or> k = 10 \<and> s = ''X'' \<or>
     k = 9 \<and> s = ''IX'' \<or> k = 5 \<and> s = ''V'' \<or> k = 4 \<and> s = ''IV'' \<or>
     k = 1 \<and> s = ''I''"
    by (simp add: aTorMap_def)
  then show ?thesis
    using le b by (elim disjE conjE) simp_all
qed

lemma addMap_choice:
  assumes mem: "(k, s) \<in> set (makeAddMap aTorMap)" and le: "uint k \<le> acc"
    and mx: "\<forall>(k', s') \<in> set (makeAddMap aTorMap). uint k' \<le> acc \<longrightarrow> uint k' \<le> uint k"
  shows "(1000 \<le> acc \<and> uint k = 1000 \<and> s = ''M'') \<or>
         (500 \<le> acc \<and> acc < 1000 \<and> uint k = 500 \<and> s = ''D'') \<or>
         (100 \<le> acc \<and> acc < 500 \<and> uint k = 100 \<and> s = ''C'') \<or>
         (50 \<le> acc \<and> acc < 100 \<and> uint k = 50 \<and> s = ''L'') \<or>
         (10 \<le> acc \<and> acc < 50 \<and> uint k = 10 \<and> s = ''X'') \<or>
         (5 \<le> acc \<and> acc < 10 \<and> uint k = 5 \<and> s = ''V'') \<or>
         (1 \<le> acc \<and> acc < 5 \<and> uint k = 1 \<and> s = ''I'')"
proof -
  from mx have b:
    "1000 \<le> acc \<longrightarrow> 1000 \<le> uint k" "500 \<le> acc \<longrightarrow> 500 \<le> uint k"
    "100 \<le> acc \<longrightarrow> 100 \<le> uint k" "50 \<le> acc \<longrightarrow> 50 \<le> uint k"
    "10 \<le> acc \<longrightarrow> 10 \<le> uint k" "5 \<le> acc \<longrightarrow> 5 \<le> uint k"
    by (simp_all add: makeAddMap_aTorMap)
  from mem have
    "k = 1000 \<and> s = ''M'' \<or> k = 500 \<and> s = ''D'' \<or> k = 100 \<and> s = ''C'' \<or>
     k = 50 \<and> s = ''L'' \<or> k = 10 \<and> s = ''X'' \<or> k = 5 \<and> s = ''V'' \<or>
     k = 1 \<and> s = ''I''"
    by (simp add: makeAddMap_aTorMap)
  then show ?thesis
    using le b by (elim disjE conjE) simp_all
qed

lemma greedy_sub_scan:
  "spec_greedy aTorMap n r \<Longrightarrow> spec_scan r = Some n \<and> lead_ok n r"
proof (induction rule: spec_greedy.induct)
  case greedy_done
  show ?case by (simp add: lead_ok_def)
next
  case (greedy_step acc k s out)
  from greedy_step.IH have sc: "spec_scan out = Some (acc - uint k)"
    and lo: "lead_ok (acc - uint k) out" by simp_all
  from aTorMap_choice [OF greedy_step.hyps(2,3,4)] sc lo
  show ?case
    by (elim disjE conjE; cases out;
        simp add: lead_ok_def spec_singles_def spec_pairs_def)
qed

lemma greedy_add_scan:
  "spec_greedy (makeAddMap aTorMap) n r \<Longrightarrow> spec_scan r = Some n \<and> lead_ok n r"
proof (induction rule: spec_greedy.induct)
  case greedy_done
  show ?case by (simp add: lead_ok_def)
next
  case (greedy_step acc k s out)
  from greedy_step.IH have sc: "spec_scan out = Some (acc - uint k)"
    and lo: "lead_ok (acc - uint k) out" by simp_all
  from addMap_choice [OF greedy_step.hyps(2,3,4)] sc lo
  show ?case
    by (elim disjE conjE; cases out;
        simp add: lead_ok_def spec_singles_def spec_pairs_def)
qed

lemma arabicToRoman_greedy_ex:
  assumes "0 \<le> n" and "n < 65536"
  shows "\<exists>r. arabicToRoman add n = Some r \<and> spec_greedy (useMap_of add) n r"
proof -
  from spec_greedy_exists [OF table_ok_useMap one_in_useMap assms(1)]
  obtain r where g: "spec_greedy (useMap_of add) n r" ..
  from loop_greedy [OF g table_ok_useMap assms(2), of "[]"]
  have "arabicToRoman add n = Some r" by (simp add: arabicToRoman_def)
  with g show ?thesis by blast
qed

lemma spec_greedy_unique:
  assumes "spec_greedy tbl n r" and "spec_greedy tbl n r'" and "table_ok tbl" and "n < 65536"
  shows "r' = r"
  using loop_greedy [OF assms(1,3,4), of "[]"] loop_greedy [OF assms(2,3,4), of "[]"] by simp

lemma spec_greedy_scan:
  "spec_greedy (useMap_of add) n r \<Longrightarrow> spec_scan r = Some n"
  using greedy_sub_scan [of n r] greedy_add_scan [of n r]
  by (cases add) (simp_all add: useMap_of_def)

lemma roundtrip_small:
  assumes "0 \<le> n" and "n < 65536"
  shows "\<exists>r. arabicToRoman add n = Some r \<and> romanToArabic r = Inr n"
proof -
  from arabicToRoman_greedy_ex [OF assms, of add]
  obtain r where r: "arabicToRoman add n = Some r" and g: "spec_greedy (useMap_of add) n r"
    by blast
  from spec_greedy_scan [OF g] have "romanToArabic r = Inr n"
    by (simp add: romanToArabic_scan)
  with r show ?thesis by blast
qed

subsection \<open>The two patterns\<close>

lemma digit_class_09: "in_class (Range (CHR ''0'') (CHR ''9'')) c = (c \<in> set ''0123456789'')"
proof
  assume a: "in_class (Range (CHR ''0'') (CHR ''9'')) c"
  define n where "n = (of_char c :: nat)"
  have e: "c = d" if "(of_char d :: nat) = n" for d
    using that unfolding n_def by (intro of_char_eqI [where ?'a = nat]) simp
  from a have "48 \<le> n" "n \<le> 57" by (simp_all add: n_def)
  then have "n = 48 \<or> n = 49 \<or> n = 50 \<or> n = 51 \<or> n = 52 \<or> n = 53 \<or> n = 54 \<or>
    n = 55 \<or> n = 56 \<or> n = 57" by arith
  then show "c \<in> set ''0123456789''"
    using e [of "CHR ''0''"] e [of "CHR ''1''"] e [of "CHR ''2''"] e [of "CHR ''3''"]
      e [of "CHR ''4''"] e [of "CHR ''5''"] e [of "CHR ''6''"] e [of "CHR ''7''"]
      e [of "CHR ''8''"] e [of "CHR ''9''"]
    by (elim disjE) simp_all
next
  assume "c \<in> set ''0123456789''"
  then show "in_class (Range (CHR ''0'') (CHR ''9'')) c" by auto
qed

lemma digit_class_19: "in_class (Range (CHR ''1'') (CHR ''9'')) c = (c \<in> set ''123456789'')"
proof -
  have "in_class (Range (CHR ''1'') (CHR ''9'')) c =
    (in_class (Range (CHR ''0'') (CHR ''9'')) c \<and> c \<noteq> CHR ''0'')"
  proof -
    have "(of_char c :: nat) = 48 \<longleftrightarrow> c = CHR ''0''"
      using of_char_eq_iff [where ?'a = nat, of c "CHR ''0''"] by (simp del: of_char_eq_iff)
    then show ?thesis by (simp del: of_char_eq_iff) arith
  qed
  then show ?thesis unfolding digit_class_09 by auto
qed


lemma star_class: "MatchString [(cl, ZeroOrMore)] s = (\<forall>c \<in> set s. in_class cl c)"
  by (induction s) auto

lemma arabicPattern_match:
  "MatchString arabicPattern s =
     (case s of [] \<Rightarrow> False
      | c # cs \<Rightarrow> c \<in> set ''123456789'' \<and> set cs \<subseteq> set ''0123456789'')"
proof (cases s)
  case Nil
  then show ?thesis by (simp add: arabicPattern_def)
next
  case (Cons c cs)
  have "MatchString arabicPattern (c # cs) =
    (in_class (Range (CHR ''1'') (CHR ''9'')) c \<and>
     MatchString [(Range (CHR ''0'') (CHR ''9''), ZeroOrMore)] cs)"
    by (simp add: arabicPattern_def del: MatchString.simps(3) in_class.simps)
  also have "\<dots> = (c \<in> set ''123456789'' \<and> set cs \<subseteq> set ''0123456789'')"
    unfolding star_class digit_class_19 digit_class_09 by blast
  finally show ?thesis using Cons by simp
qed

lemma romanPattern_match:
  "MatchString romanPattern s = (s \<noteq> [] \<and> set s \<subseteq> set ''IVXLCDM'')"
proof (cases s)
  case Nil
  then show ?thesis by (simp add: romanPattern_def)
next
  case (Cons c cs)
  have "MatchString romanPattern (c # cs) =
    (in_class (OneOf ''IVXLCDM'') c \<and> MatchString [(OneOf ''IVXLCDM'', ZeroOrMore)] cs)"
    by (simp add: romanPattern_def del: MatchString.simps(3) in_class.simps)
  also have "\<dots> = (c \<in> set ''IVXLCDM'' \<and> set cs \<subseteq> set ''IVXLCDM'')"
    unfolding star_class in_class.simps by blast
  finally show ?thesis using Cons by simp
qed

lemma whichNumeralType_char:
  "whichNumeralType s =
     (if (\<exists>c cs. s = c # cs \<and> c \<in> set ''123456789'' \<and> set cs \<subseteq> set ''0123456789'') then Arabic
      else if s \<noteq> [] \<and> set s \<subseteq> set ''IVXLCDM'' then Roman
      else UnDef)"
  unfolding whichNumeralType_def arabicPattern_match romanPattern_match
  by (cases s) simp_all

subsection \<open>Ranges and decimal numerals\<close>





lemma genRange_loop_stuck:
  assumes ret: "genRange_loop fl i outVals = Some y"
  shows "\<not> (i \<le> 65536 \<and> 65536 \<le> endF fl)"
proof (rule genRange_loop.raw_induct
    [where P = "\<lambda>fl i outVals y. \<not> (i \<le> 65536 \<and> 65536 \<le> endF fl)", OF _ ret])
  fix f :: "flags \<Rightarrow> int \<Rightarrow> string list \<Rightarrow> string list option"
  fix fl' i' out' y'
  assume IH: "\<And>fl i outVals y. f fl i outVals = Some y \<Longrightarrow> \<not> (i \<le> 65536 \<and> 65536 \<le> endF fl)"
    and eq: "(if i' \<le> endF fl' then
                Option.bind (arabicToRoman (addF fl') i')
                  (\<lambda>r. f fl' (incr i') (out' @ [formatValue fl' i' r Roman]))
              else Some out') = Some y'"
  show "\<not> (i' \<le> 65536 \<and> 65536 \<le> endF fl')"
  proof
    assume a: "i' \<le> 65536 \<and> 65536 \<le> endF fl'"
    show False
    proof (cases "i' = 65536")
      case True
      with a eq arabicToRoman_65536 [of "addF fl'"] show False by simp
    next
      case False
      with a have lt: "i' < 65536" by simp
      then have inc: "incr i' = i' + 1" by (simp add: incr_def)
      from a eq inc obtain r where "f fl' (i' + 1) (out' @ [formatValue fl' i' r Roman]) = Some y'"
        by (auto simp add: bind_eq_Some_conv split: if_splits)
      from IH [OF this] lt a show False by simp
    qed
  qed
qed

lemma genRange_hangs: "startF fl \<le> 65536 \<Longrightarrow> 65536 \<le> endF fl \<Longrightarrow> genRange fl = None"
proof (cases "genRange fl")
  case None
  then show ?thesis .
next
  case (Some y)
  assume "startF fl \<le> 65536" "65536 \<le> endF fl"
  moreover from Some have "genRange_loop fl (startF fl) [] = Some y" by (simp add: genRange_def)
  from genRange_loop_stuck [OF this] have "\<not> (startF fl \<le> 65536 \<and> 65536 \<le> endF fl)" .
  ultimately show ?thesis by simp
qed

lemma main_single_empty: "main_single fl [] = Some (Inr Usage)"
  by (simp add: main_single_def)

lemma parse_digits_append:
  "parse_digits (xs @ ys) acc = Option.bind (parse_digits xs acc) (parse_digits ys)"
  by (induction xs arbitrary: acc) (simp_all del: in_class.simps)

lemma digit_char:
  assumes "d < 10"
  shows "in_class (Range (CHR ''0'') (CHR ''9'')) (char_of (48 + d))"
    and "(of_char (char_of (48 + d)) :: int) = 48 + int d"
proof -
  from assms have m: "(48 + d) mod 256 = 48 + d" by simp
  have n: "(of_char (char_of (48 + d)) :: nat) = 48 + d"
    by (simp only: of_char_of m)
  then show "in_class (Range (CHR ''0'') (CHR ''9'')) (char_of (48 + d))"
    using assms by simp
  from n have "int (of_char (char_of (48 + d)) :: nat) = int (48 + d)" by (rule arg_cong)
  then show "(of_char (char_of (48 + d)) :: int) = 48 + int d"
    by (simp only: of_nat_of_char)
qed

lemma parse_digits_fmt_nat:
  "parse_digits (fmt_nat n) acc = Some (10 ^ length (fmt_nat n) * acc + int n)"
proof (induction n arbitrary: acc rule: fmt_nat.induct)
  case (1 n)
  show ?case
  proof (cases "n < 10")
    case True
    with digit_char [OF True] show ?thesis
      by (subst (1 2) fmt_nat.simps) (simp del: in_class.simps)
  next
    case False
    then have d: "n mod 10 < 10" by simp
    have split: "int n = 10 * int (n div 10) + int (n mod 10)"
      by (metis of_nat_add of_nat_mult of_nat_numeral mult_div_mod_eq)
    from False "1.IH" [OF False] digit_char [OF d] show ?thesis
      by (subst (1 2) fmt_nat.simps)
        (simp add: parse_digits_append split algebra_simps del: in_class.simps)
  qed
qed

lemma fmt_nat_head:
  "\<exists>c cs. fmt_nat n = c # cs \<and> in_class (Range (CHR ''0'') (CHR ''9'')) c"
proof (induction n rule: fmt_nat.induct)
  case (1 n)
  show ?case
  proof (cases "n < 10")
    case True
    with digit_char(1) [OF True] show ?thesis
      by (subst fmt_nat.simps) (simp del: in_class.simps)
  next
    case False
    with "1.IH" [OF False] show ?thesis
      by (subst fmt_nat.simps) (auto simp del: in_class.simps)
  qed
qed

lemma ParseInt_fmt_d:
  assumes "- (2 ^ 63) \<le> i" and "i < 2 ^ 63"
  shows "ParseInt (fmt_d i) = Some i"
proof -
  from fmt_nat_head [of "nat \<bar>i\<bar>"] obtain c cs where
    f: "fmt_nat (nat \<bar>i\<bar>) = c # cs" and c: "in_class (Range (CHR ''0'') (CHR ''9'')) c"
    by blast
  from c have sign: "c \<noteq> CHR ''+''" "c \<noteq> CHR ''-''" by auto
  have p: "parse_digits (fmt_nat (nat \<bar>i\<bar>)) 0 = Some \<bar>i\<bar>"
    by (simp add: parse_digits_fmt_nat)
  show ?thesis
  proof (cases "i < 0")
    case True
    then have "fmt_d i = CHR ''-'' # fmt_nat (nat \<bar>i\<bar>)" by (simp add: fmt_d_def)
    with True assms p f show ?thesis by (simp add: ParseInt_def del: in_class.simps)
  next
    case False
    then have "fmt_d i = fmt_nat (nat \<bar>i\<bar>)" by (simp add: fmt_d_def)
    with False assms p f sign show ?thesis
      by (simp add: ParseInt_def Let_def del: in_class.simps parse_digits.simps)
  qed
qed

section \<open>The claims\<close>

text \<open>
  \<^bold>\<open>C1\<close>. For every integer \<open>n\<close> from 1 to 4000, \<^verbatim>\<open>arabicToRoman\<close> in subtractive mode
  (the flag \<^verbatim>\<open>-a\<close> off) returns a Roman string, and \<^verbatim>\<open>romanToArabic\<close> of that string
  returns \<open>n\<close>.
\<close>

theorem roundtrip_subtractive:
  assumes "1 \<le> n" and "n \<le> 4000"
  shows "\<exists>r. arabicToRoman False n = Some r \<and> romanToArabic r = Inr n"
  using assms by (intro roundtrip_small) simp_all

theorem roundtrip_subtractive_witness:
  "arabicToRoman False 1965 = Some ''MCMLXV'' \<and> romanToArabic ''MCMLXV'' = Inr 1965"
proof -
  have e: "arabicToRoman False 1965 = Some ''MCMLXV''" by code_simp
  from roundtrip_subtractive [of 1965]
  obtain r where "arabicToRoman False 1965 = Some r" and "romanToArabic r = Inr 1965" by auto
  with e show ?thesis by simp
qed

text \<open>
  \<^bold>\<open>C2\<close>. For every integer \<open>n\<close> from 1 to 4000, \<^verbatim>\<open>arabicToRoman\<close> in additive mode
  returns a Roman string, and \<^verbatim>\<open>romanToArabic\<close> of that string returns \<open>n\<close>. The table
  of the additive mode is \<^verbatim>\<open>aTorMap\<close> without its two-symbol entries, 4 is rendered
  \<open>IIII\<close> and not \<open>IV\<close>, and the decoder accepts \<open>IIII\<close>.
\<close>

theorem roundtrip_additive:
  "(1 \<le> n \<and> n \<le> 4000 \<longrightarrow> (\<exists>r. arabicToRoman True n = Some r \<and> romanToArabic r = Inr n))
   \<and> useMap_of True = filter (\<lambda>(k, v). length v \<noteq> 2) aTorMap
   \<and> useMap_of True =
       [(1000, ''M''), (500, ''D''), (100, ''C''), (50, ''L''), (10, ''X''), (5, ''V''), (1, ''I'')]
   \<and> arabicToRoman True 4 = Some ''IIII''
   \<and> arabicToRoman True 4 \<noteq> Some ''IV''
   \<and> romanToArabic ''IIII'' = Inr 4"
proof (intro conjI impI)
  assume "1 \<le> n \<and> n \<le> 4000"
  then show "\<exists>r. arabicToRoman True n = Some r \<and> romanToArabic r = Inr n"
    by (intro roundtrip_small) simp_all
next
  show "useMap_of True = filter (\<lambda>(k, v). length v \<noteq> 2) aTorMap"
    by (simp add: useMap_of_def makeAddMap_def aTorMap_def)
next
  show "useMap_of True =
    [(1000, ''M''), (500, ''D''), (100, ''C''), (50, ''L''), (10, ''X''), (5, ''V''), (1, ''I'')]"
    by (simp add: useMap_of_def makeAddMap_aTorMap)
next
  show a: "arabicToRoman True 4 = Some ''IIII''" by code_simp
  then show "arabicToRoman True 4 \<noteq> Some ''IV''" by simp
next
  show "romanToArabic ''IIII'' = Inr 4" by code_simp
qed

theorem roundtrip_additive_witness:
  "arabicToRoman True 1965 = Some ''MDCCCCLXV'' \<and> romanToArabic ''MDCCCCLXV'' = Inr 1965"
proof -
  have e: "arabicToRoman True 1965 = Some ''MDCCCCLXV''" by code_simp
  from roundtrip_additive [of 1965]
  obtain r where "arabicToRoman True 1965 = Some r" and "romanToArabic r = Inr 1965" by auto
  with e show ?thesis by simp
qed

text \<open>
  \<^bold>\<open>C3\<close>. For every integer \<open>n\<close> from 1 to 4000 and either mode, \<^verbatim>\<open>arabicToRoman\<close>
  returns (the loop terminates), and what it returns is the output of the greedy
  algorithm of the specification on the table of the mode, started from the
  accumulator \<open>n\<close> and stopped when the accumulator is zero; that output is unique.
\<close>

theorem arabicToRoman_refines_greedy:
  assumes "1 \<le> n" and "n \<le> 4000"
  shows "\<exists>r. arabicToRoman add n = Some r \<and> spec_greedy (useMap_of add) n r \<and>
           (\<forall>r'. spec_greedy (useMap_of add) n r' \<longrightarrow> r' = r)"
proof -
  from assms have n: "0 \<le> n" "n < 65536" by simp_all
  from arabicToRoman_greedy_ex [OF n, of add]
  obtain r where r: "arabicToRoman add n = Some r" and g: "spec_greedy (useMap_of add) n r"
    by blast
  have "\<forall>r'. spec_greedy (useMap_of add) n r' \<longrightarrow> r' = r"
    using spec_greedy_unique [OF g _ table_ok_useMap n(2)] by blast
  with r g show ?thesis by blast
qed

theorem arabicToRoman_refines_greedy_witness:
  "arabicToRoman False 14 = Some ''XIV'' \<and> spec_greedy (useMap_of False) 14 ''XIV'' \<and>
   arabicToRoman True 14 = Some ''XIIII'' \<and> spec_greedy (useMap_of True) 14 ''XIIII''"
proof -
  have e: "arabicToRoman False 14 = Some ''XIV''" "arabicToRoman True 14 = Some ''XIIII''"
    by code_simp+
  from arabicToRoman_refines_greedy [of 14 False] arabicToRoman_refines_greedy [of 14 True] e
  show ?thesis by auto
qed

text \<open>
  \<^bold>\<open>C4\<close>. On every string over the alphabet \<open>I V X L C D M\<close>, \<^verbatim>\<open>romanToArabic\<close>
  returns the sum that the left-to-right scan of the specification computes (the
  two-character pair first, the single character otherwise); on any string it returns
  that sum or, where the scan finds no match, the error of the invalid character. The
  scan is permissive: \<open>IIII\<close> gives 4 and \<open>VV\<close> gives 10.
\<close>

theorem romanToArabic_refines_scan:
  "(set s \<subseteq> set ''IVXLCDM'' \<longrightarrow> (\<exists>v. spec_scan s = Some v \<and> romanToArabic s = Inr v))
   \<and> romanToArabic s =
        (case spec_scan s of Some v \<Rightarrow> Inr v | None \<Rightarrow> Inl (InvalidCharacter s))
   \<and> romanToArabic ''IIII'' = Inr 4
   \<and> romanToArabic ''VV'' = Inr 10"
proof (intro conjI impI)
  assume "set s \<subseteq> set ''IVXLCDM''"
  from spec_scan_alphabet [OF this] obtain v where "spec_scan s = Some v" by blast
  then show "\<exists>v. spec_scan s = Some v \<and> romanToArabic s = Inr v"
    by (simp add: romanToArabic_scan)
next
  show "romanToArabic s =
    (case spec_scan s of Some v \<Rightarrow> Inr v | None \<Rightarrow> Inl (InvalidCharacter s))"
    by (rule romanToArabic_scan)
next
  show "romanToArabic ''IIII'' = Inr 4" by code_simp
next
  show "romanToArabic ''VV'' = Inr 10" by code_simp
qed

theorem romanToArabic_refines_scan_witness:
  "spec_scan ''XIV'' = Some 14 \<and> romanToArabic ''XIV'' = Inr 14"
proof -
  have "spec_scan ''XIV'' = Some 14" by (simp add: spec_pairs_def spec_singles_def)
  with romanToArabic_refines_scan [of "''XIV''"] show ?thesis by auto
qed

text \<open>
  \<^bold>\<open>C5\<close>. \<^verbatim>\<open>whichNumeralType\<close> returns \<open>Arabic\<close> exactly on the strings that are one of
  the digits 1 to 9 followed by any number of digits 0 to 9; otherwise \<open>Roman\<close>
  exactly on the non-empty strings over \<open>I V X L C D M\<close>; otherwise \<open>UnDef\<close>.
  \<open>1965\<close> is Arabic, \<open>MCMLXV\<close> is Roman, the empty string, \<open>abc123\<close> and the lower-case
  \<open>iv\<close> are undefined, and the upper-case \<open>IV\<close> is Roman.
\<close>

theorem whichNumeralType_patterns:
  "whichNumeralType s =
     (if (\<exists>c cs. s = c # cs \<and> c \<in> set ''123456789'' \<and> set cs \<subseteq> set ''0123456789'') then Arabic
      else if s \<noteq> [] \<and> set s \<subseteq> set ''IVXLCDM'' then Roman
      else UnDef)
   \<and> whichNumeralType ''1965'' = Arabic
   \<and> whichNumeralType ''MCMLXV'' = Roman
   \<and> whichNumeralType '''' = UnDef
   \<and> whichNumeralType ''abc123'' = UnDef
   \<and> whichNumeralType ''iv'' = UnDef
   \<and> whichNumeralType ''IV'' = Roman"
proof (intro conjI)
  show "whichNumeralType s =
     (if (\<exists>c cs. s = c # cs \<and> c \<in> set ''123456789'' \<and> set cs \<subseteq> set ''0123456789'') then Arabic
      else if s \<noteq> [] \<and> set s \<subseteq> set ''IVXLCDM'' then Roman
      else UnDef)"
    by (rule whichNumeralType_char)
qed (simp_all add: whichNumeralType_char)

theorem whichNumeralType_patterns_witness:
  "whichNumeralType ''4000'' = Arabic \<and> whichNumeralType ''0'' = UnDef \<and>
   whichNumeralType ''VV'' = Roman \<and> whichNumeralType ''12X'' = UnDef"
  using whichNumeralType_patterns [of "''4000''"] whichNumeralType_patterns [of "''0''"]
    whichNumeralType_patterns [of "''VV''"] whichNumeralType_patterns [of "''12X''"]
  by simp

text \<open>
  \<^bold>\<open>C6\<close>. \<^verbatim>\<open>isValArabic\<close> returns an error if and only if its argument is below 1 or above
  4000. At the boundaries: 1 and 4000 pass \<^verbatim>\<open>makeInt64\<close> and convert to \<open>I\<close> and
  \<open>MMMM\<close> (in both modes); 0 and 4001 fail.
\<close>

theorem isValArabic_range:
  "((\<exists>e. isValArabic n = Some e) \<longleftrightarrow> (n < 1 \<or> 4000 < n))
   \<and> isValArabic n =
        (if n < 1 then Some (LessThan1 n)
         else if 4000 < n then Some (GreaterThan4000 n) else None)
   \<and> makeInt64 ''1'' = Inr 1 \<and> arabicToRoman add 1 = Some ''I''
   \<and> makeInt64 ''4000'' = Inr 4000 \<and> arabicToRoman add 4000 = Some ''MMMM''
   \<and> isValArabic 0 = Some (LessThan1 0) \<and> makeInt64 ''0'' = Inl (LessThan1 0)
   \<and> isValArabic 4001 = Some (GreaterThan4000 4001)
   \<and> makeInt64 ''4001'' = Inl (GreaterThan4000 4001)"
proof (intro conjI)
  show "(\<exists>e. isValArabic n = Some e) \<longleftrightarrow> (n < 1 \<or> 4000 < n)"
    by (auto simp add: isValArabic_def)
  show "isValArabic n =
        (if n < 1 then Some (LessThan1 n)
         else if 4000 < n then Some (GreaterThan4000 n) else None)"
    by (simp add: isValArabic_def)
  show "arabicToRoman add 1 = Some ''I''"
    by (cases add) (simp_all, code_simp+)
  show "arabicToRoman add 4000 = Some ''MMMM''"
    by (cases add) (simp_all, code_simp+)
  show "makeInt64 ''1'' = Inr 1" by code_simp
  show "makeInt64 ''4000'' = Inr 4000" by code_simp
  show "makeInt64 ''0'' = Inl (LessThan1 0)" by code_simp
  show "makeInt64 ''4001'' = Inl (GreaterThan4000 4001)" by code_simp
qed (simp_all add: isValArabic_def)

theorem isValArabic_range_witness:
  "isValArabic 1965 = None \<and> isValArabic (- 3) = Some (LessThan1 (- 3)) \<and>
   isValArabic 5000 = Some (GreaterThan4000 5000)"
  using isValArabic_range [of 1965] isValArabic_range [of "- 3"] isValArabic_range [of 5000]
  by simp

text \<open>
  \<^bold>\<open>C7\<close>. The claim is that in range mode a value outside 1 to 4000 makes the
  conversion fail with a range error instead of producing output. The code does not
  do this: \<^verbatim>\<open>genRange\<close> calls \<^verbatim>\<open>arabicToRoman\<close> without \<^verbatim>\<open>isValArabic\<close>, so the range
  from 4001 to 4001 produces the line \<open>4001 = MMMMI\<close> and the range from 0 to 0 the
  line \<open>0 = \<close>, although \<^verbatim>\<open>isValArabic\<close> rejects both values and the single value
  path of \<^verbatim>\<open>main\<close> ends with that error on \<open>4001\<close>.
\<close>

theorem genRange_skips_validation:
  "genRange \<lparr>addF = False, simpleOutF = False, startF = 4001, endF = 4001\<rparr> =
     Some [''4001 = MMMMI'']
   \<and> genRange \<lparr>addF = False, simpleOutF = False, startF = 0, endF = 0\<rparr> = Some [''0 = '']
   \<and> isValArabic 4001 = Some (GreaterThan4000 4001)
   \<and> isValArabic 0 = Some (LessThan1 0)
   \<and> main_single \<lparr>addF = False, simpleOutF = False, startF = 1, endF = 1\<rparr> ''4001'' =
       Some (Inl (GreaterThan4000 4001))"
  by (intro conjI; code_simp)

text \<open>
  \<^bold>\<open>C8\<close>. For a conversion from Arabic to Roman, \<^verbatim>\<open>formatValue\<close> returns the Roman
  string alone in simple mode; otherwise the decimal number, \<open> = \<close> and the Roman
  string, followed in additive mode by a tab and \<open> (add)\<close>; the decimal number is the
  numeral that \<^verbatim>\<open>ParseInt\<close> reads back as the value. The argument \<open>1965\<close> in
  additive mode gives \<open>1965 = MDCCCCLXV\<close>, a tab and \<open> (add)\<close>, or \<open>MDCCCCLXV\<close> in
  simple mode.
\<close>

theorem formatValue_roman:
  "formatValue fl arVal romVal Roman =
     (if simpleOutF fl then romVal
      else fmt_d arVal @ '' = '' @ romVal @ (if addF fl then CHR 0x09 # '' (add)'' else []))
   \<and> (\<not> simpleOutF fl \<and> addF fl \<longrightarrow>
        (\<exists>sep. formatValue fl arVal romVal Roman =
           fmt_d arVal @ '' = '' @ romVal @ sep @ '' (add)''))
   \<and> (- (2 ^ 63) \<le> arVal \<and> arVal < 2 ^ 63 \<longrightarrow> ParseInt (fmt_d arVal) = Some arVal)
   \<and> main_single \<lparr>addF = True, simpleOutF = False, startF = 1, endF = 1\<rparr> ''1965'' =
       Some (Inr (Line (''1965 = MDCCCCLXV'' @ CHR 0x09 # '' (add)'')))
   \<and> main_single \<lparr>addF = True, simpleOutF = True, startF = 1, endF = 1\<rparr> ''1965'' =
       Some (Inr (Line ''MDCCCCLXV''))
   \<and> main_single \<lparr>addF = False, simpleOutF = False, startF = 1, endF = 1\<rparr> ''1965'' =
       Some (Inr (Line ''1965 = MCMLXV''))"
proof (intro conjI impI)
  assume "- (2 ^ 63) \<le> arVal \<and> arVal < 2 ^ 63"
  then show "ParseInt (fmt_d arVal) = Some arVal" by (intro ParseInt_fmt_d) simp_all
next
  assume "\<not> simpleOutF fl \<and> addF fl"
  then have "formatValue fl arVal romVal Roman =
    fmt_d arVal @ '' = '' @ romVal @ [CHR 0x09] @ '' (add)''"
    by (simp add: formatValue_def)
  then show "\<exists>sep. formatValue fl arVal romVal Roman =
    fmt_d arVal @ '' = '' @ romVal @ sep @ '' (add)''"
    by (rule exI [of _ "[CHR 0x09]"])
next
  show "formatValue fl arVal romVal Roman =
     (if simpleOutF fl then romVal
      else fmt_d arVal @ '' = '' @ romVal @ (if addF fl then CHR 0x09 # '' (add)'' else []))"
    by (simp add: formatValue_def)
  show "main_single \<lparr>addF = True, simpleOutF = False, startF = 1, endF = 1\<rparr> ''1965'' =
       Some (Inr (Line (''1965 = MDCCCCLXV'' @ CHR 0x09 # '' (add)'')))"
    by code_simp
  show "main_single \<lparr>addF = True, simpleOutF = True, startF = 1, endF = 1\<rparr> ''1965'' =
       Some (Inr (Line ''MDCCCCLXV''))"
    by code_simp
  show "main_single \<lparr>addF = False, simpleOutF = False, startF = 1, endF = 1\<rparr> ''1965'' =
       Some (Inr (Line ''1965 = MCMLXV''))"
    by code_simp
qed

theorem formatValue_roman_witness:
  "formatValue \<lparr>addF = True, simpleOutF = False, startF = 1, endF = 1\<rparr> 4 ''IIII'' Roman =
     ''4 = IIII'' @ CHR 0x09 # '' (add)''
   \<and> formatValue \<lparr>addF = False, simpleOutF = False, startF = 1, endF = 1\<rparr> 4 ''IV'' Roman =
     ''4 = IV''
   \<and> formatValue \<lparr>addF = True, simpleOutF = True, startF = 1, endF = 1\<rparr> 4 ''IIII'' Roman =
     ''IIII''"
proof -
  have "fmt_d 4 = ''4''" by code_simp
  with formatValue_roman [THEN conjunct1,
      of "\<lparr>addF = True, simpleOutF = False, startF = 1, endF = 1\<rparr>" 4 "''IIII''"]
    formatValue_roman [THEN conjunct1,
      of "\<lparr>addF = False, simpleOutF = False, startF = 1, endF = 1\<rparr>" 4 "''IV''"]
    formatValue_roman [THEN conjunct1,
      of "\<lparr>addF = True, simpleOutF = True, startF = 1, endF = 1\<rparr>" 4 "''IIII''"]
  show ?thesis by simp
qed

text \<open>
  \<^bold>\<open>C9\<close>. On every non-empty string over \<open>I V X L C D M\<close>, \<^verbatim>\<open>romanToArabic\<close> returns
  a value (the branch of the invalid character is not taken), and the value is at
  least 1.
\<close>

theorem romanToArabic_alphabet_ok:
  assumes "s \<noteq> []" and "set s \<subseteq> set ''IVXLCDM''"
  shows "\<exists>v. romanToArabic s = Inr v \<and> 1 \<le> v"
proof -
  from spec_scan_alphabet [OF assms(2)] assms(1)
  obtain v where "spec_scan s = Some v" and "1 \<le> v" by blast
  then show ?thesis by (simp add: romanToArabic_scan)
qed

theorem romanToArabic_alphabet_ok_witness:
  "romanToArabic ''MDCLXVI'' = Inr 1666 \<and> (1::int) \<le> 1666"
proof -
  have "romanToArabic ''MDCLXVI'' = Inr 1666" by code_simp
  with romanToArabic_alphabet_ok [of "''MDCLXVI''"] show ?thesis by auto
qed



end
